theory Spec2Isabelle
  imports Main "HOL-Library.Word" "HOL-Library.Product_Lexorder"
begin

section \<open>Python values used by the model\<close>

text \<open>
  The repository is a Django application. The model class \<open>DemographicData\<close> of
  \<open>accounts/models.py\<close> declares nine coded columns, each with a tuple of
  (code, label) pairs, and the method \<open>to_display\<close> that renders one row as a
  dictionary. The embedding keeps the tuples as association lists, the row as a record
  and the dictionary as an association list in the order of the keyword arguments.
\<close>

subsection \<open>Decimal and hexadecimal text\<close>

definition digit_char :: "nat \<Rightarrow> char" where
  "digit_char d = ''0123456789abcdef'' ! d"

text \<open>\<open>'%d' % n\<close> for a non-negative \<open>n\<close>.\<close>

function str_nat :: "nat \<Rightarrow> string" where
  "str_nat n = (if n < 10 then [digit_char n] else str_nat (n div 10) @ [digit_char (n mod 10)])"
  by pat_completeness auto
termination
  by (relation "measure (\<lambda>n. n)") auto

text \<open>\<open>'%x' % n\<close> for a non-negative \<open>n\<close>.\<close>

function hex_nat :: "nat \<Rightarrow> string" where
  "hex_nat n = (if n < 16 then [digit_char n] else hex_nat (n div 16) @ [digit_char (n mod 16)])"
  by pat_completeness auto
termination
  by (relation "measure (\<lambda>n. n)") auto

declare str_nat.simps [simp del]
declare hex_nat.simps [simp del]

text \<open>The zero flag of a format: \<open>'%04d'\<close> pads on the left and never truncates.\<close>

definition zero_pad :: "nat \<Rightarrow> string \<Rightarrow> string" where
  "zero_pad w s = replicate (w - length s) (CHR ''0'') @ s"

subsection \<open>Dates and timestamps\<close>

text \<open>
  \<open>datetime.date\<close> and its subclass \<open>datetime.datetime\<close>. The offset of an aware
  timestamp is kept in whole minutes east of UTC; \<open>None\<close> is a naive timestamp.
\<close>

record date =
  year :: nat
  month :: nat
  day :: nat

record datetime = date +
  hour :: nat
  minute :: nat
  second :: nat
  microsecond :: nat
  utcoffset :: "int option"

text \<open>\<open>date.isoformat\<close>: \<open>'%04d-%02d-%02d' % (year, month, day)\<close>.\<close>

definition date_isoformat :: "'a date_scheme \<Rightarrow> string" where
  "date_isoformat d =
     zero_pad 4 (str_nat (year d)) @ ''-'' @ zero_pad 2 (str_nat (month d)) @ ''-'' @
     zero_pad 2 (str_nat (day d))"

definition format_time :: "nat \<Rightarrow> nat \<Rightarrow> nat \<Rightarrow> nat \<Rightarrow> string" where
  "format_time hh mm ss us =
     zero_pad 2 (str_nat hh) @ '':'' @ zero_pad 2 (str_nat mm) @ '':'' @ zero_pad 2 (str_nat ss) @
     (if us \<noteq> 0 then ''.'' @ zero_pad 6 (str_nat us) else [])"

definition format_offset :: "int option \<Rightarrow> string" where
  "format_offset off =
     (case off of
        None \<Rightarrow> []
      | Some m \<Rightarrow>
          (if m < 0 then ''-'' else ''+'') @
          zero_pad 2 (str_nat (nat \<bar>m\<bar> div 60)) @ '':'' @ zero_pad 2 (str_nat (nat \<bar>m\<bar> mod 60)))"

text \<open>\<open>datetime.isoformat()\<close> with the default separator \<open>T\<close>.\<close>

definition datetime_isoformat :: "'a datetime_scheme \<Rightarrow> string" where
  "datetime_isoformat t =
     date_isoformat t @ ''T'' @ format_time (hour t) (minute t) (second t) (microsecond t) @
     format_offset (utcoffset t)"

text \<open>The key by which two timestamps of one clock are compared.\<close>

definition dt_key :: "'a datetime_scheme \<Rightarrow> nat \<times> nat \<times> nat \<times> nat \<times> nat \<times> nat \<times> nat" where
  "dt_key t = (year t, month t, day t, hour t, minute t, second t, microsecond t)"

subsection \<open>UUIDs\<close>

text \<open>\<open>uuid.UUID\<close> holds a 128-bit integer; \<open>UUID.hex\<close> is \<open>'%032x' % self.int\<close>.\<close>

type_synonym uuid = "128 word"

definition uuid_hex :: "uuid \<Rightarrow> string" where
  "uuid_hex u = zero_pad 32 (hex_nat (unat u))"

subsection \<open>Dictionaries and the display accessor\<close>

text \<open>\<open>dict(pairs)\<close>: a later pair with the same key replaces an earlier one.\<close>

definition py_dict :: "('k \<times> 'v) list \<Rightarrow> 'k \<rightharpoonup> 'v" where
  "py_dict kvs = map_of (rev kvs)"

type_synonym choices = "(string \<times> string) list"

text \<open>
  Every column declared with \<open>choices=\<close> gets an accessor \<open>get_FOO_display()\<close> from
  Django's \<open>Model._get_FIELD_display\<close>, whose body is
  \<open>dict(field.flatchoices).get(value, value)\<close> (passed through \<open>force_text\<close>, which
  returns a text as it is): the label of the stored code, and the stored code itself
  when the code is not a key of the choices.
\<close>

definition get_FIELD_display :: "choices \<Rightarrow> string \<Rightarrow> string" where
  "get_FIELD_display flatchoices v = (case py_dict flatchoices v of Some label \<Rightarrow> label | None \<Rightarrow> v)"

section \<open>accounts/models.py\<close>

subsection \<open>User\<close>

record User =
  user_pk :: nat
  uuid :: uuid
  username :: string
  given_name :: string
  middle_name :: string
  family_name :: string
  organization :: "nat option"
  identicon_text :: string
  is_active :: bool
  is_staff :: bool

subsection \<open>The choices of DemographicData\<close>

definition RACE_CHOICES :: choices where
  "RACE_CHOICES = [
     (''white'', ''White''),
     (''hisp'', ''Hispanic, Latino, or Spanish origin''),
     (''black'', ''Black or African American''),
     (''asian'', ''Asian''),
     (''native'', ''American Indian or Alaska Native''),
     (''mideast-naf'', ''Middle Eastern or North African''),
     (''hawaiian-pac-isl'', ''Native Hawaiian or Other Pacific Islander''),
     (''other'', ''Another race, ethnicity, or origin'')]"

definition GENDER_CHOICES :: choices where
  "GENDER_CHOICES = [
     (''m'', ''male''),
     (''f'', ''female''),
     (''o'', ''other''),
     (''na'', ''prefer not to answer'')]"

definition EDUCATION_CHOICES :: choices where
  "EDUCATION_CHOICES = [
     (''some'', ''some or attending high school''),
     (''hs'', ''high school diploma or GED''),
     (''col'', ''some or attending college''),
     (''assoc'', ''2-year college degree''),
     (''bach'', ''4-year college degree''),
     (''grad'', ''some or attending graduate or professional school''),
     (''prof'', ''graduate or professional degree'')]"

definition SPOUSE_EDUCATION_CHOICES :: choices where
  "SPOUSE_EDUCATION_CHOICES = [
     (''some'', ''some or attending high school''),
     (''hs'', ''high school diploma or GED''),
     (''col'', ''some or attending college''),
     (''assoc'', ''2-year college degree''),
     (''bach'', ''4-year college degree''),
     (''grad'', ''some or attending graduate or professional school''),
     (''prof'', ''graduate or professional degree''),
     (''na'', ''not applicable - no spouse or partner'')]"

definition NO_CHILDREN_CHOICES :: choices where
  "NO_CHILDREN_CHOICES = [
     (''0'', ''0''),
     (''1'', ''1''),
     (''2'', ''2''),
     (''3'', ''3''),
     (''4'', ''4''),
     (''5'', ''5''),
     (''6'', ''6''),
     (''7'', ''7''),
     (''8'', ''8''),
     (''9'', ''9''),
     (''10'', ''10''),
     (''>10'', ''More than 10'')]"

definition AGE_CHOICES :: choices where
  "AGE_CHOICES = [
     (''<18'', ''under 18''),
     (''18-21'', ''18-21''),
     (''22-24'', ''22-24''),
     (''25-29'', ''25-29''),
     (''30-34'', ''30-34''),
     (''35-39'', ''35-39''),
     (''40-44'', ''40-44''),
     (''45-59'', ''45-49''),
     (''50s'', ''50-59''),
     (''60s'', ''60-69''),
     (''>70'', ''70 or over'')]"

definition GUARDIAN_CHOICES :: choices where
  "GUARDIAN_CHOICES = [
     (''1'', ''1''),
     (''2'', ''2''),
     (''3>'', ''3 or more''),
     (''varies'', ''varies'')]"

definition INCOME_CHOICES :: choices where
  "INCOME_CHOICES = [
     (''0'', ''0''),
     (''5000'', ''5000''),
     (''10000'', ''10000''),
     (''15000'', ''15000''),
     (''20000'', ''20000''),
     (''30000'', ''30000''),
     (''40000'', ''40000''),
     (''50000'', ''50000''),
     (''60000'', ''60000''),
     (''70000'', ''70000''),
     (''80000'', ''80000''),
     (''90000'', ''90000''),
     (''100000'', ''100000''),
     (''110000'', ''110000''),
     (''120000'', ''120000''),
     (''130000'', ''130000''),
     (''140000'', ''140000''),
     (''150000'', ''150000''),
     (''160000'', ''160000''),
     (''170000'', ''170000''),
     (''180000'', ''180000''),
     (''190000'', ''190000''),
     (''>200000'', ''over 200000''),
     (''na'', ''prefer not to answer'')]"

definition DENSITY_CHOICES :: choices where
  "DENSITY_CHOICES = [
     (''urban'', ''urban''),
     (''suburban'', ''suburban''),
     (''rural'', ''rural'')]"

subsection \<open>DemographicData\<close>

text \<open>
  The columns a submission fills in, in the order of the class body. \<open>extra\<close> is a
  nullable JSON column; its content is opaque to this module, so its type is a
  parameter.
\<close>

record 'e Fields =
  number_of_children :: string
  child_birthdays :: "date list"
  languages_spoken_at_home :: string
  number_of_guardians :: string
  number_of_guardians_explanation :: string
  race_identification :: string
  age :: string
  gender :: string
  education_level :: string
  spouse_education_level :: string
  annual_income :: string
  number_of_books :: int
  additional_comments :: string
  country :: string
  state :: string
  density :: string
  extra :: "'e option"

text \<open>
  A stored row: the columns above, the primary key Django adds, the owner (the
  \<open>User\<close> object the foreign key loads), the timestamp set on insertion
  (\<open>auto_now_add\<close>) and the nullable self-reference \<open>previous\<close> (the key of the row
  it points to).
\<close>

record 'e DemographicData = "'e Fields" +
  pk :: nat
  user :: User
  created_at :: datetime
  previous :: "nat option"

text \<open>The nine columns declared with \<open>choices=\<close> among the tuples above.\<close>

datatype coded_field =
    F_number_of_children
  | F_number_of_guardians
  | F_race_identification
  | F_age
  | F_gender
  | F_education_level
  | F_spouse_education_level
  | F_annual_income
  | F_density

definition coded_fields :: "coded_field list" where
  "coded_fields = [F_number_of_children, F_number_of_guardians, F_race_identification, F_age,
     F_gender, F_education_level, F_spouse_education_level, F_annual_income, F_density]"

fun attname :: "coded_field \<Rightarrow> string" where
  "attname F_number_of_children = ''number_of_children''"
| "attname F_number_of_guardians = ''number_of_guardians''"
| "attname F_race_identification = ''race_identification''"
| "attname F_age = ''age''"
| "attname F_gender = ''gender''"
| "attname F_education_level = ''education_level''"
| "attname F_spouse_education_level = ''spouse_education_level''"
| "attname F_annual_income = ''annual_income''"
| "attname F_density = ''density''"

fun flatchoices :: "coded_field \<Rightarrow> choices" where
  "flatchoices F_number_of_children = NO_CHILDREN_CHOICES"
| "flatchoices F_number_of_guardians = GUARDIAN_CHOICES"
| "flatchoices F_race_identification = RACE_CHOICES"
| "flatchoices F_age = AGE_CHOICES"
| "flatchoices F_gender = GENDER_CHOICES"
| "flatchoices F_education_level = EDUCATION_CHOICES"
| "flatchoices F_spouse_education_level = SPOUSE_EDUCATION_CHOICES"
| "flatchoices F_annual_income = INCOME_CHOICES"
| "flatchoices F_density = DENSITY_CHOICES"

text \<open>\<open>getattr(self, field.attname)\<close>.\<close>

fun getattr :: "('e, 'z) Fields_scheme \<Rightarrow> coded_field \<Rightarrow> string" where
  "getattr self F_number_of_children = number_of_children self"
| "getattr self F_number_of_guardians = number_of_guardians self"
| "getattr self F_race_identification = race_identification self"
| "getattr self F_age = age self"
| "getattr self F_gender = gender self"
| "getattr self F_education_level = education_level self"
| "getattr self F_spouse_education_level = spouse_education_level self"
| "getattr self F_annual_income = annual_income self"
| "getattr self F_density = density self"

subsection \<open>to_display\<close>

text \<open>The values the dictionary of \<open>to_display\<close> holds.\<close>

datatype 'e pyval =
    PStr string
  | PList "string list"
  | PInt int
  | PJson "'e option"

text \<open>
  \<open>DemographicData.to_display\<close>, one pair per keyword argument of \<open>dict(...)\<close>.
  The \<open>state\<close> column is a \<open>USStateField\<close> of the localflavor package, which sets
  that column's choices itself; the table is not part of this repository and is the
  parameter \<open>state_choices\<close>. \<open>str(self.country)\<close> of a django-countries
  \<open>Country\<close> is its code.
\<close>

definition to_display :: "choices \<Rightarrow> 'e DemographicData \<Rightarrow> (string \<times> 'e pyval) list" where
  "to_display state_choices self = [
     (''user'', PStr (uuid_hex (uuid (user self)))),
     (''created_at'', PStr (datetime_isoformat (created_at self))),
     (''number_of_children'', PStr (get_FIELD_display NO_CHILDREN_CHOICES (number_of_children self))),
     (''child_birthdays'', PList (map date_isoformat (child_birthdays self))),
     (''languages_spoken_at_home'', PStr (languages_spoken_at_home self)),
     (''number_of_guardians'', PStr (get_FIELD_display GUARDIAN_CHOICES (number_of_guardians self))),
     (''number_of_guardians_explanation'', PStr (number_of_guardians_explanation self)),
     (''race_identification'', PStr (get_FIELD_display RACE_CHOICES (race_identification self))),
     (''age'', PStr (get_FIELD_display AGE_CHOICES (age self))),
     (''gender'', PStr (get_FIELD_display GENDER_CHOICES (gender self))),
     (''education_level'', PStr (get_FIELD_display EDUCATION_CHOICES (education_level self))),
     (''spouse_education_level'',
        PStr (get_FIELD_display SPOUSE_EDUCATION_CHOICES (spouse_education_level self))),
     (''annual_income'', PStr (get_FIELD_display INCOME_CHOICES (annual_income self))),
     (''number_of_books'', PInt (number_of_books self)),
     (''additional_comments'', PStr (additional_comments self)),
     (''country'', PStr (country self)),
     (''state'', PStr (get_FIELD_display state_choices (state self))),
     (''density'', PStr (get_FIELD_display DENSITY_CHOICES (density self))),
     (''extra'', PJson (extra self))]"

text \<open>
  A method call as a step on the receiver: the value returned and the receiver after
  the call. \<open>to_display\<close> reads attributes of \<open>self\<close> and assigns none.
\<close>

definition to_display_call ::
  "choices \<Rightarrow> 'e DemographicData \<Rightarrow> (string \<times> 'e pyval) list \<times> 'e DemographicData" where
  "to_display_call state_choices self = (to_display state_choices self, self)"

section \<open>The record store\<close>

text \<open>
  The repository's \<open>web/urls.py\<close> routes \<open>demographic_data/\<close> to
  \<open>web.views.DemographicDataCreateView\<close>, which is not among the source files, and
  no function of the source files follows the \<open>previous\<close> references. The store
  below is therefore written from the specification's section 4.2.
\<close>

datatype error =
    InvalidFieldValue string string
  | NotFound nat
  | BrokenChain

text \<open>
  Modelled from the spec: the persistence behind the Record Store (absent from the
  source files). Rows are kept newest first; \<open>next_pk\<close> is the identity the next
  insertion receives.
\<close>

record 'e Store =
  rows :: "'e DemographicData list"
  next_pk :: nat

definition empty_store :: "'e Store" where
  "empty_store = \<lparr>rows = [], next_pk = 1\<rparr>"

text \<open>
  Modelled from the spec: the validation step of \<open>create\<close> ("validates every coded
  field against its Enumeration Catalog (fails with InvalidFieldValue if
  absent/unrecognized, identifying which field and value)"). The first offending
  column in the order of the class body is the one reported.
\<close>

definition validate :: "('e, 'z) Fields_scheme \<Rightarrow> error option" where
  "validate vals =
     (case filter (\<lambda>f. getattr vals f \<notin> set (map fst (flatchoices f))) coded_fields of
        [] \<Rightarrow> None
      | f # _ \<Rightarrow> Some (InvalidFieldValue (attname f) (getattr vals f)))"

text \<open>
  Modelled from the spec: \<open>create(owner, fields, previous=None)\<close> (absent from the
  source files): validate, assign \<open>created_at\<close> the current time \<open>now\<close>, persist,
  return the new identity. A failed call leaves the store as it was.
\<close>

definition create ::
  "datetime \<Rightarrow> User \<Rightarrow> 'e Fields \<Rightarrow> nat option \<Rightarrow> 'e Store \<Rightarrow> (error + nat) \<times> 'e Store" where
  "create now owner vals prev s =
     (case validate vals of
        Some e \<Rightarrow> (Inl e, s)
      | None \<Rightarrow>
          (Inr (next_pk s),
           s\<lparr>rows := Fields.extend vals (DemographicData.fields (next_pk s) owner now prev) # rows s,
             next_pk := Suc (next_pk s)\<rparr>))"

text \<open>
  Modelled from the spec: \<open>get(id)\<close> (absent from the source files): the Record or
  \<open>NotFound\<close>.
\<close>

definition get :: "'e Store \<Rightarrow> nat \<Rightarrow> error + 'e DemographicData" where
  "get s i = (case find (\<lambda>r. pk r = i) (rows s) of None \<Rightarrow> Inl (NotFound i) | Some r \<Rightarrow> Inr r)"

text \<open>
  Modelled from the spec: \<open>latest_for(owner)\<close> (absent from the source files): the
  owner's Record with the greatest \<open>created_at\<close>, the later insertion among equals,
  or \<open>None\<close>.
\<close>

definition latest_for :: "'e Store \<Rightarrow> User \<Rightarrow> 'e DemographicData option" where
  "latest_for s owner =
     (case filter (\<lambda>r. user r = owner) (rows s) of
        [] \<Rightarrow> None
      | r # rs \<Rightarrow>
          Some (fold (\<lambda>x best. if dt_key (created_at best) < dt_key (created_at x) then x else best)
                  rs r))"

text \<open>
  Modelled from the spec: the traversal of \<open>history_for\<close> (absent from the source
  files). \<open>visited\<close> holds the identities already yielded; meeting one of them
  again is a cycle. A reference that resolves to no Record propagates \<open>NotFound\<close>.
\<close>

function walk ::
  "'e Store \<Rightarrow> User \<Rightarrow> nat list \<Rightarrow> nat option \<Rightarrow> error + 'e DemographicData list" where
  "walk s owner visited None = Inr []"
| "walk s owner visited (Some i) =
     (if i \<in> set visited then Inl BrokenChain
      else case get s i of
             Inl e \<Rightarrow> Inl e
           | Inr r \<Rightarrow>
               if user r \<noteq> owner then Inl BrokenChain
               else (case walk s owner (i # visited) (previous r) of
                       Inl e \<Rightarrow> Inl e
                     | Inr rs \<Rightarrow> Inr (r # rs)))"
  by pat_completeness auto
termination
proof (relation "measure (\<lambda>(s, owner, visited, cur). card (pk ` set (rows s) - set visited))")
  show "wf (measure (\<lambda>(s, owner, visited, cur). card (pk ` set (rows s) - set visited)))"
    by simp
next
  fix s :: "'e Store" and owner :: User and visited :: "nat list" and i :: nat
    and r :: "'e DemographicData"
  assume fresh: "i \<notin> set visited" and found: "get s i = Inr r"
  from found have "find (\<lambda>r. pk r = i) (rows s) = Some r"
    by (simp add: get_def split: option.splits)
  then have "i \<in> pk ` set (rows s)"
    by (auto simp: find_Some_iff)
  with fresh have "i \<in> pk ` set (rows s) - set visited"
    by simp
  then have "card ((pk ` set (rows s) - set visited) - {i}) < card (pk ` set (rows s) - set visited)"
    by (intro card_Diff1_less) simp_all
  moreover have "pk ` set (rows s) - set (i # visited) = (pk ` set (rows s) - set visited) - {i}"
    by auto
  ultimately have "card (pk ` set (rows s) - set (i # visited)) < card (pk ` set (rows s) - set visited)"
    by simp
  then show "((s, owner, i # visited, previous r), (s, owner, visited, Some i))
      \<in> measure (\<lambda>(s, owner, visited, cur). card (pk ` set (rows s) - set visited))"
    by simp
qed

text \<open>
  Modelled from the spec: \<open>history_for(owner)\<close> (absent from the source files): the
  owner's Records from most recent to oldest, following \<open>previous\<close> from
  \<open>latest_for(owner)\<close>.
\<close>

definition history_for :: "'e Store \<Rightarrow> User \<Rightarrow> error + 'e DemographicData list" where
  "history_for s owner = walk s owner [] (map_option pk (latest_for s owner))"

text \<open>
  Modelled from the spec: the callers' protocol ("a new record is created referencing
  the user's current latest record as previous"), one submission and a sequence of
  submissions, each with the reading of the clock at its insertion.
\<close>

definition submit ::
  "datetime \<Rightarrow> User \<Rightarrow> 'e Fields \<Rightarrow> 'e Store \<Rightarrow> (error + nat) \<times> 'e Store" where
  "submit now owner vals s = create now owner vals (map_option pk (latest_for s owner)) s"

fun submit_all :: "(datetime \<times> User \<times> 'e Fields) list \<Rightarrow> 'e Store \<Rightarrow> 'e Store" where
  "submit_all [] s = s"
| "submit_all ((now, owner, vals) # calls) s = submit_all calls (snd (submit now owner vals s))"

text \<open>A sequence of arbitrary \<open>create\<close> calls, each with its own \<open>previous\<close>.\<close>

fun create_all ::
  "(datetime \<times> User \<times> 'e Fields \<times> nat option) list \<Rightarrow> 'e Store \<Rightarrow> 'e Store" where
  "create_all [] s = s"
| "create_all ((now, owner, vals, prev) # calls) s =
     create_all calls (snd (create now owner vals prev s))"

text \<open>The identities of a store are below the next identity to be handed out.\<close>

definition wf_store :: "'e Store \<Rightarrow> bool" where
  "wf_store s = list_all (\<lambda>r. pk r < next_pk s) (rows s)"

text \<open>\<open>follows s i j\<close>: from the Record \<open>i\<close> the \<open>previous\<close> references lead to \<open>j\<close>.\<close>

inductive follows :: "'e Store \<Rightarrow> nat \<Rightarrow> nat \<Rightarrow> bool" for s :: "'e Store" where
  here: "follows s i i"
| step: "get s i = Inr r \<Longrightarrow> previous r = Some j \<Longrightarrow> follows s j k \<Longrightarrow> follows s i k"

text \<open>
  \<open>endless s i\<close>: every Record the references lead to from \<open>i\<close> exists and has a
  \<open>previous\<close>, so the references from \<open>i\<close> never reach an unset \<open>previous\<close>.
\<close>

definition endless :: "'e Store \<Rightarrow> nat \<Rightarrow> bool" where
  "endless s i \<longleftrightarrow> (\<forall>x. follows s i x \<longrightarrow> (\<exists>r k. get s x = Inr r \<and> previous r = Some k))"

text \<open>
  The shape of a store the callers' protocol builds: every row references the newest
  older row of its owner, and rows are newest first by identity and by \<open>created_at\<close>.
\<close>

fun chained :: "'e DemographicData list \<Rightarrow> bool" where
  "chained [] = True"
| "chained (r # rs) = (previous r = map_option pk (find (\<lambda>x. user x = user r) rs) \<and> chained rs)"

abbreviation (input) newest_first where
  "newest_first R rs \<equiv>
     sorted_wrt (\<lambda>a b. pk b < pk a \<and> R (dt_key (created_at b)) (dt_key (created_at a))) rs"

text \<open>What a row holds of the call that created it: the clock reading, the owner, the values.\<close>

definition submitted :: "'e DemographicData \<Rightarrow> datetime \<times> User \<times> 'e Fields" where
  "submitted r = (created_at r, user r, Fields.truncate r)"

section \<open>Sample data\<close>

definition alice :: User where
  "alice = \<lparr>user_pk = 7, uuid = 0x12345678123456781234567812345678,
     username = ''alice@example.org'', given_name = ''Alice'', middle_name = [],
     family_name = ''Liddell'', organization = None, identicon_text = [],
     is_active = True, is_staff = False\<rparr>"

definition bob :: User where
  "bob = \<lparr>user_pk = 8, uuid = 0xab, username = ''bob@example.org'', given_name = ''Bob'',
     middle_name = [], family_name = ''Builder'', organization = None, identicon_text = [],
     is_active = True, is_staff = False\<rparr>"

definition sample_fields :: "unit Fields" where
  "sample_fields = \<lparr>number_of_children = ''2'',
     child_birthdays = [\<lparr>year = 1990, month = 1, day = 1\<rparr>, \<lparr>year = 1992, month = 6, day = 15\<rparr>],
     languages_spoken_at_home = ''English'', number_of_guardians = ''2'',
     number_of_guardians_explanation = [], race_identification = ''white'', age = ''45-59'',
     gender = ''f'', education_level = ''bach'', spouse_education_level = ''na'',
     annual_income = ''na'', number_of_books = 40, additional_comments = [],
     country = ''US'', state = ''MA'', density = ''urban'', extra = None\<rparr>"

definition clock :: "nat \<Rightarrow> datetime" where
  "clock n = \<lparr>year = 2017, month = 5, day = 24, hour = 14, minute = 36, second = n,
     microsecond = 0, utcoffset = Some 0\<rparr>"

definition sample_record :: "unit DemographicData" where
  "sample_record = Fields.extend sample_fields (DemographicData.fields 3 alice (clock 0) None)"

definition sample_submissions :: "(datetime \<times> User \<times> unit Fields) list" where
  "sample_submissions =
     [(clock 1, alice, sample_fields), (clock 2, bob, sample_fields), (clock 3, alice, sample_fields)]"

definition sample_creates :: "(datetime \<times> User \<times> unit Fields \<times> nat option) list" where
  "sample_creates = [(clock 1, alice, sample_fields, None), (clock 2, alice, sample_fields, Some 1)]"

definition foreign_store :: "unit Store" where
  "foreign_store =
     \<lparr>rows = [Fields.extend sample_fields (DemographicData.fields 2 alice (clock 2) (Some 1)),
              Fields.extend sample_fields (DemographicData.fields 1 bob (clock 1) None)],
      next_pk = 3\<rparr>"

definition cyclic_store :: "unit Store" where
  "cyclic_store =
     \<lparr>rows = [Fields.extend sample_fields (DemographicData.fields 2 alice (clock 2) (Some 1)),
              Fields.extend sample_fields (DemographicData.fields 1 alice (clock 1) (Some 2))],
      next_pk = 3\<rparr>"

section \<open>The catalogs\<close>

lemmas catalog_defs = RACE_CHOICES_def GENDER_CHOICES_def EDUCATION_CHOICES_def
  SPOUSE_EDUCATION_CHOICES_def NO_CHILDREN_CHOICES_def AGE_CHOICES_def GUARDIAN_CHOICES_def
  INCOME_CHOICES_def DENSITY_CHOICES_def

lemmas sample_defs = sample_record_def sample_fields_def Fields.extend_def
  DemographicData.fields_def alice_def clock_def

text \<open>
  Claim C3 as the specification states it gives the annual income catalog exactly 23
  codes. \<open>INCOME_CHOICES\<close> has 24 pairs with 24 different codes.
\<close>

theorem income_catalog_not_23:
  "length INCOME_CHOICES \<noteq> 23 \<and> card (set (map fst INCOME_CHOICES)) \<noteq> 23"
proof -
  have d: "distinct (map fst INCOME_CHOICES)"
    by (simp add: INCOME_CHOICES_def)
  have l: "length (map fst INCOME_CHOICES) = 24"
    by (simp add: INCOME_CHOICES_def)
  from distinct_card [OF d] l show ?thesis
    by simp
qed

text \<open>
  Claim C3, amended: the catalogs have these sizes, each with pairwise different codes:
  race 8, gender the 4 codes m, f, o, na, education level 7 and spouse education level
  8 with different code sets, number of children the codes 0 to 10 and \<open>>10\<close>, age 11,
  number of guardians 4 with \<open>varies\<close> among them, annual income 24 with the pair
  (na, prefer not to answer) among them, density 3.
\<close>

theorem catalog_sizes:
  "length RACE_CHOICES = 8 \<and> distinct (map fst RACE_CHOICES)
   \<and> map fst GENDER_CHOICES = [''m'', ''f'', ''o'', ''na'']
   \<and> length EDUCATION_CHOICES = 7 \<and> distinct (map fst EDUCATION_CHOICES)
   \<and> length SPOUSE_EDUCATION_CHOICES = 8 \<and> distinct (map fst SPOUSE_EDUCATION_CHOICES)
   \<and> set (map fst EDUCATION_CHOICES) \<noteq> set (map fst SPOUSE_EDUCATION_CHOICES)
   \<and> map fst NO_CHILDREN_CHOICES = map str_nat [0..<11] @ [''>10'']
   \<and> length AGE_CHOICES = 11 \<and> distinct (map fst AGE_CHOICES)
   \<and> length GUARDIAN_CHOICES = 4 \<and> distinct (map fst GUARDIAN_CHOICES)
   \<and> ''varies'' \<in> set (map fst GUARDIAN_CHOICES)
   \<and> length INCOME_CHOICES = 24 \<and> distinct (map fst INCOME_CHOICES)
   \<and> (''na'', ''prefer not to answer'') \<in> set INCOME_CHOICES
   \<and> length DENSITY_CHOICES = 3 \<and> distinct (map fst DENSITY_CHOICES)"
proof -
  have children: "map fst NO_CHILDREN_CHOICES = map str_nat [0..<11] @ [''>10'']"
    by (simp add: NO_CHILDREN_CHOICES_def upt_rec str_nat.simps digit_char_def)
  have differ: "set (map fst EDUCATION_CHOICES) \<noteq> set (map fst SPOUSE_EDUCATION_CHOICES)"
  proof -
    have "''na'' \<in> set (map fst SPOUSE_EDUCATION_CHOICES)"
      by (simp add: SPOUSE_EDUCATION_CHOICES_def)
    moreover have "''na'' \<notin> set (map fst EDUCATION_CHOICES)"
      by (simp add: EDUCATION_CHOICES_def)
    ultimately show ?thesis
      by blast
  qed
  show ?thesis
    apply (intro conjI children differ)
    apply (simp_all add: catalog_defs)
    done
qed

section \<open>The display accessor\<close>

lemma py_dict_SomeD: "py_dict kvs k = Some v \<Longrightarrow> (k, v) \<in> set kvs"
  unfolding py_dict_def by (drule map_of_SomeD) simp

lemma py_dict_None_iff: "py_dict kvs k = None \<longleftrightarrow> k \<notin> set (map fst kvs)"
  unfolding py_dict_def by (simp add: map_of_eq_None_iff)

lemma get_FIELD_display_known:
  "v \<in> set (map fst cs) \<Longrightarrow> (v, get_FIELD_display cs v) \<in> set cs"
proof -
  assume "v \<in> set (map fst cs)"
  then obtain l where "py_dict cs v = Some l"
    using py_dict_None_iff [of cs v] by (cases "py_dict cs v") auto
  then show ?thesis
    by (simp add: get_FIELD_display_def py_dict_SomeD)
qed

lemma get_FIELD_display_unknown:
  "v \<notin> set (map fst cs) \<Longrightarrow> get_FIELD_display cs v = v"
  using py_dict_None_iff [of cs v] by (simp add: get_FIELD_display_def)

lemma to_display_coded:
  "map_of (to_display sc r) (attname f) = Some (PStr (get_FIELD_display (flatchoices f) (getattr r f)))"
  by (cases f) (simp_all add: to_display_def)

text \<open>
  Claim C1 as the specification states it: rendering a coded field gives a label of the
  field's catalog or fails, and never gives the stored code itself. A row whose
  \<open>gender\<close> is \<open>xx\<close> is rendered with the gender \<open>xx\<close>, which is no label of the
  gender catalog.
\<close>

theorem unknown_code_rendered_raw:
  "map_of (to_display [] (sample_record\<lparr>gender := ''xx''\<rparr>)) ''gender'' = Some (PStr ''xx'')
   \<and> ''xx'' \<notin> set (map snd GENDER_CHOICES)"
  by (simp add: to_display_def sample_defs get_FIELD_display_def py_dict_def GENDER_CHOICES_def)

text \<open>
  Claim C1, amended: for every row and every coded field, \<open>to_display\<close> renders the
  field as a string; when the stored code is a code of the field's catalog, the string
  is a label the catalog pairs with that code, and otherwise it is the stored code
  itself, unchanged. No rendering fails.
\<close>

theorem coded_field_rendering:
  "map_of (to_display sc r) (attname f) = Some (PStr (get_FIELD_display (flatchoices f) (getattr r f)))
   \<and> (if getattr r f \<in> set (map fst (flatchoices f))
      then (getattr r f, get_FIELD_display (flatchoices f) (getattr r f)) \<in> set (flatchoices f)
      else get_FIELD_display (flatchoices f) (getattr r f) = getattr r f)"
  using to_display_coded [of sc r f] get_FIELD_display_known [of "getattr r f" "flatchoices f"]
    get_FIELD_display_unknown [of "getattr r f" "flatchoices f"]
  by simp

theorem coded_field_rendering_witness:
  "map_of (to_display [] sample_record) ''gender'' = Some (PStr ''female'')
   \<and> (''f'', ''female'') \<in> set GENDER_CHOICES"
  using coded_field_rendering [of "[]" sample_record F_gender]
  by (simp add: sample_defs get_FIELD_display_def py_dict_def GENDER_CHOICES_def)

text \<open>
  Claim C9: the age catalog pairs the code \<open>45-59\<close> with the label \<open>45-49\<close>, so a
  row whose age is \<open>45-59\<close> is rendered with the age \<open>45-49\<close>; that pair is the only
  one of the catalog whose code or label reads \<open>45-59\<close>, and no code reads \<open>45-49\<close>.
\<close>

theorem age_45_59_rendered_45_49:
  "map_of (to_display sc (r\<lparr>age := ''45-59''\<rparr>)) ''age'' = Some (PStr ''45-49'')
   \<and> get_FIELD_display AGE_CHOICES ''45-59'' = ''45-49''
   \<and> filter (\<lambda>(c, l). c = ''45-59'' \<or> l = ''45-59'') AGE_CHOICES = [(''45-59'', ''45-49'')]
   \<and> ''45-49'' \<notin> set (map fst AGE_CHOICES)"
  by (simp add: to_display_def get_FIELD_display_def py_dict_def AGE_CHOICES_def)

text \<open>
  Claim C10: the spouse education catalog is the education catalog followed by the one
  pair (na, not applicable - no spouse or partner): its first 7 pairs are the 7 pairs of
  the education catalog in the same order, and every education code is rendered with
  the same label by both fields.
\<close>

theorem spouse_catalog_extends_education:
  "SPOUSE_EDUCATION_CHOICES = EDUCATION_CHOICES @ [(''na'', ''not applicable - no spouse or partner'')]
   \<and> length EDUCATION_CHOICES = 7
   \<and> take 7 SPOUSE_EDUCATION_CHOICES = EDUCATION_CHOICES
   \<and> drop 7 SPOUSE_EDUCATION_CHOICES = [(''na'', ''not applicable - no spouse or partner'')]
   \<and> (c \<in> set (map fst EDUCATION_CHOICES) \<longrightarrow>
        get_FIELD_display SPOUSE_EDUCATION_CHOICES c = get_FIELD_display EDUCATION_CHOICES c
        \<and> map_of (to_display sc (r\<lparr>education_level := c, spouse_education_level := c\<rparr>)) ''spouse_education_level''
          = map_of (to_display sc (r\<lparr>education_level := c, spouse_education_level := c\<rparr>)) ''education_level'')"
proof -
  have ext: "SPOUSE_EDUCATION_CHOICES = EDUCATION_CHOICES @ [(''na'', ''not applicable - no spouse or partner'')]"
    by (simp add: SPOUSE_EDUCATION_CHOICES_def EDUCATION_CHOICES_def)
  have len: "length EDUCATION_CHOICES = 7"
    by (simp add: EDUCATION_CHOICES_def)
  have same: "get_FIELD_display SPOUSE_EDUCATION_CHOICES c = get_FIELD_display EDUCATION_CHOICES c"
    if "c \<in> set (map fst EDUCATION_CHOICES)"
  proof -
    from that have "c \<noteq> ''na''" by (auto simp: EDUCATION_CHOICES_def)
    then show ?thesis
      by (simp add: get_FIELD_display_def py_dict_def ext)
  qed
  show ?thesis
    using same by (simp add: ext len to_display_def)
qed

theorem spouse_catalog_extends_education_witness:
  "''bach'' \<in> set (map fst EDUCATION_CHOICES)
   \<and> get_FIELD_display SPOUSE_EDUCATION_CHOICES ''bach'' = ''4-year college degree''
   \<and> get_FIELD_display EDUCATION_CHOICES ''bach'' = ''4-year college degree''"
proof -
  have m: "''bach'' \<in> set (map fst EDUCATION_CHOICES)"
    by (simp add: EDUCATION_CHOICES_def)
  have e: "get_FIELD_display EDUCATION_CHOICES ''bach'' = ''4-year college degree''"
    by (simp add: get_FIELD_display_def py_dict_def EDUCATION_CHOICES_def)
  from spouse_catalog_extends_education [of "''bach''" "[]" sample_record] m e show ?thesis
    by simp
qed

section \<open>Formatted numbers\<close>

lemma str_nat_length: "0 < k \<Longrightarrow> n < 10 ^ k \<Longrightarrow> length (str_nat n) \<le> k"
proof (induction k arbitrary: n)
  case 0
  then show ?case by simp
next
  case (Suc k)
  show ?case
  proof (cases "n < 10")
    case True
    then show ?thesis by (simp add: str_nat.simps)
  next
    case False
    with Suc.prems have k: "0 < k" by (cases k) auto
    from Suc.prems have "n div 10 < 10 ^ k"
      by (simp add: less_mult_imp_div_less mult.commute)
    with Suc.IH k have "length (str_nat (n div 10)) \<le> k" by blast
    with False show ?thesis by (subst str_nat.simps) simp
  qed
qed

lemma str_nat_nonempty: "0 < length (str_nat n)"
  by (subst str_nat.simps) simp

lemma hex_nat_length: "0 < k \<Longrightarrow> n < 16 ^ k \<Longrightarrow> length (hex_nat n) \<le> k"
proof (induction k arbitrary: n)
  case 0
  then show ?case by simp
next
  case (Suc k)
  show ?case
  proof (cases "n < 16")
    case True
    then show ?thesis by (simp add: hex_nat.simps)
  next
    case False
    with Suc.prems have k: "0 < k" by (cases k) auto
    from Suc.prems have "n div 16 < 16 ^ k"
      by (simp add: less_mult_imp_div_less mult.commute)
    with Suc.IH k have "length (hex_nat (n div 16)) \<le> k" by blast
    with False show ?thesis by (subst hex_nat.simps) simp
  qed
qed

lemma zero_pad_length: "length s \<le> w \<Longrightarrow> length (zero_pad w s) = w"
  by (simp add: zero_pad_def)

lemma uuid_hex_length: "length (uuid_hex u) = 32"
proof -
  have "unat u < 2 ^ 128"
    using unsigned_less [of u] by simp
  also have "(2::nat) ^ 128 = 16 ^ 32" by simp
  finally have "length (hex_nat (unat u)) \<le> 32"
    by (intro hex_nat_length) simp_all
  then show ?thesis
    by (simp add: uuid_hex_def zero_pad_length)
qed

lemma date_isoformat_shape:
  assumes "year d < 10000" "month d < 100" "day d < 100"
  shows "length (date_isoformat d) = 10 \<and> date_isoformat d ! 4 = CHR ''-''
    \<and> date_isoformat d ! 7 = CHR ''-''"
proof -
  define y m dd where "y = zero_pad 4 (str_nat (year d))" and "m = zero_pad 2 (str_nat (month d))"
    and "dd = zero_pad 2 (str_nat (day d))"
  have "length (str_nat (year d)) \<le> 4"
    using assms(1) by (intro str_nat_length) simp_all
  then have y: "length y = 4"
    by (simp add: y_def zero_pad_length)
  have "length (str_nat (month d)) \<le> 2"
    using assms(2) by (intro str_nat_length) simp_all
  then have m: "length m = 2"
    by (simp add: m_def zero_pad_length)
  have "length (str_nat (day d)) \<le> 2"
    using assms(3) by (intro str_nat_length) simp_all
  then have dd: "length dd = 2"
    by (simp add: dd_def zero_pad_length)
  have "date_isoformat d = y @ CHR ''-'' # m @ CHR ''-'' # dd"
    by (simp add: date_isoformat_def y_def m_def dd_def)
  with y m dd show ?thesis
    by (simp add: nth_append nth_Cons')
qed

section \<open>to_display\<close>

text \<open>
  Claim C7: \<open>to_display\<close> renders \<open>child_birthdays\<close> as the list of the ISO texts
  of the stored dates, one per date and in the stored order; for the dates 1990-01-01
  and 1992-06-15 the rendering is \<open>["1990-01-01", "1992-06-15"]\<close>. For dates with a
  year of at most four digits and a month and day of at most two, every text has ten
  characters, with a hyphen after the year and after the month.
\<close>

theorem child_birthdays_rendering:
  "map_of (to_display sc r) ''child_birthdays'' = Some (PList (map date_isoformat (child_birthdays r)))
   \<and> length (map date_isoformat (child_birthdays r)) = length (child_birthdays r)
   \<and> map_of (to_display sc (r\<lparr>child_birthdays :=
          [\<lparr>year = 1990, month = 1, day = 1\<rparr>, \<lparr>year = 1992, month = 6, day = 15\<rparr>]\<rparr>))
        ''child_birthdays'' = Some (PList [''1990-01-01'', ''1992-06-15''])
   \<and> (list_all (\<lambda>d. year d < 10000 \<and> month d < 100 \<and> day d < 100) (child_birthdays r) \<longrightarrow>
        list_all (\<lambda>t. length t = 10 \<and> t ! 4 = CHR ''-'' \<and> t ! 7 = CHR ''-'')
          (map date_isoformat (child_birthdays r)))"
proof -
  have shape: "list_all (\<lambda>t. length t = 10 \<and> t ! 4 = CHR ''-'' \<and> t ! 7 = CHR ''-'')
          (map date_isoformat ds)"
    if "list_all (\<lambda>d. year d < 10000 \<and> month d < 100 \<and> day d < 100) ds" for ds :: "date list"
    using that by (induction ds) (simp_all add: date_isoformat_shape)
  then show ?thesis
    by (simp add: to_display_def date_isoformat_def zero_pad_def str_nat.simps digit_char_def)
qed

theorem child_birthdays_rendering_witness:
  "list_all (\<lambda>d. year d < 10000 \<and> month d < 100 \<and> day d < 100) (child_birthdays sample_record)
   \<and> map_of (to_display [] sample_record) ''child_birthdays''
       = Some (PList [''1990-01-01'', ''1992-06-15''])
   \<and> list_all (\<lambda>t. length t = 10 \<and> t ! 4 = CHR ''-'' \<and> t ! 7 = CHR ''-'')
        [''1990-01-01'', ''1992-06-15'']"
proof -
  have dates: "child_birthdays sample_record
      = [\<lparr>year = 1990, month = 1, day = 1\<rparr>, \<lparr>year = 1992, month = 6, day = 15\<rparr>]"
    by (simp add: sample_defs)
  have iso: "map date_isoformat [\<lparr>year = 1990, month = 1, day = 1\<rparr>, \<lparr>year = 1992, month = 6, day = 15\<rparr>]
      = [''1990-01-01'', ''1992-06-15'']"
    by (simp add: date_isoformat_def zero_pad_def str_nat.simps digit_char_def)
  from child_birthdays_rendering [of "[]" sample_record] show ?thesis
    unfolding dates iso by simp
qed

text \<open>
  Claim C6: the \<open>user\<close> entry of \<open>to_display\<close> is the hex form of the owner's UUID,
  a text of 32 characters; the dictionary has the nineteen keys below and no other; and
  the primary key of the row, the key of the row it references as \<open>previous\<close> and the
  primary key of the owner have no influence on the dictionary.
\<close>

theorem owner_rendered_as_uuid_hex:
  "map_of (to_display sc r) ''user'' = Some (PStr (uuid_hex (uuid (user r))))
   \<and> length (uuid_hex (uuid (user r))) = 32
   \<and> map fst (to_display sc r) =
       [''user'', ''created_at'', ''number_of_children'', ''child_birthdays'',
        ''languages_spoken_at_home'', ''number_of_guardians'', ''number_of_guardians_explanation'',
        ''race_identification'', ''age'', ''gender'', ''education_level'', ''spouse_education_level'',
        ''annual_income'', ''number_of_books'', ''additional_comments'', ''country'', ''state'',
        ''density'', ''extra'']
   \<and> to_display sc (r\<lparr>pk := i, previous := p, user := (user r)\<lparr>user_pk := j\<rparr>\<rparr>) = to_display sc r"
  by (simp add: to_display_def uuid_hex_length)

text \<open>
  Claim C5: two calls of \<open>to_display\<close> on a row, the second on the row as the first
  call left it, return the same dictionary, and the row is as it was before the calls.
\<close>

theorem to_display_twice:
  "to_display_call sc r = (d1, r1) \<Longrightarrow> to_display_call sc r1 = (d2, r2) \<Longrightarrow> d2 = d1 \<and> r2 = r"
  by (auto simp: to_display_call_def)

theorem to_display_twice_witness:
  "to_display_call [] sample_record = (to_display [] sample_record, sample_record)
   \<and> map_of (to_display [] sample_record) ''density'' = Some (PStr ''urban'')"
proof -
  have c: "to_display_call [] sample_record = (to_display [] sample_record, sample_record)"
    by (simp add: to_display_call_def)
  from to_display_twice [OF c c] c show ?thesis
    by (simp add: to_display_def sample_defs get_FIELD_display_def py_dict_def DENSITY_CHOICES_def)
qed

section \<open>The record store: create\<close>

lemma coded_fields_all: "f \<in> set coded_fields"
  by (cases f) (simp_all add: coded_fields_def)

lemma validate_None_iff:
  "validate vals = None \<longleftrightarrow> (\<forall>f. getattr vals f \<in> set (map fst (flatchoices f)))"
proof -
  have "validate vals = None \<longleftrightarrow>
      filter (\<lambda>f. getattr vals f \<notin> set (map fst (flatchoices f))) coded_fields = []"
    by (simp add: validate_def split: list.splits)
  also have "\<dots> \<longleftrightarrow> (\<forall>f\<in>set coded_fields. getattr vals f \<in> set (map fst (flatchoices f)))"
    by (simp add: filter_empty_conv)
  finally show ?thesis
    using coded_fields_all by blast
qed

lemma validate_SomeD:
  assumes "validate vals = Some e"
  shows "\<exists>f. e = InvalidFieldValue (attname f) (getattr vals f)
            \<and> getattr vals f \<notin> set (map fst (flatchoices f))"
proof -
  from assms obtain f fs where
    fl: "filter (\<lambda>f. getattr vals f \<notin> set (map fst (flatchoices f))) coded_fields = f # fs"
    and e: "e = InvalidFieldValue (attname f) (getattr vals f)"
    by (auto simp: validate_def split: list.splits)
  from fl have "f \<in> set (filter (\<lambda>f. getattr vals f \<notin> set (map fst (flatchoices f))) coded_fields)"
    by simp
  then have "getattr vals f \<notin> set (map fst (flatchoices f))"
    by simp
  with e show ?thesis by blast
qed

lemma create_failure:
  "validate vals = Some e \<Longrightarrow> create now owner vals prev s = (Inl e, s)"
  by (simp add: create_def)

lemma create_success:
  "validate vals = None \<Longrightarrow>
   create now owner vals prev s =
     (Inr (next_pk s),
      s\<lparr>rows := Fields.extend vals (DemographicData.fields (next_pk s) owner now prev) # rows s,
        next_pk := Suc (next_pk s)\<rparr>)"
  by (simp add: create_def)

lemma sample_fields_valid: "validate sample_fields = None"
  by (simp add: validate_def coded_fields_def sample_fields_def catalog_defs)

text \<open>
  Claim C2: \<open>create\<close> with a gender that is no code of the gender catalog fails with
  \<open>InvalidFieldValue\<close>, naming a field whose value is not in its catalog, and leaves
  the store as it was; the same holds for any coded field with a value outside its
  catalog. With every other coded field valid, the gender \<open>xx\<close> is the field and value
  reported. A call that persists a Record has found every coded field in its catalog.
\<close>

theorem create_validates_coded_fields:
  "(gender vals \<notin> set (map fst GENDER_CHOICES) \<longrightarrow>
      (\<exists>f. create now owner vals prev s = (Inl (InvalidFieldValue (attname f) (getattr vals f)), s)
           \<and> getattr vals f \<notin> set (map fst (flatchoices f))))
   \<and> (getattr vals g \<notin> set (map fst (flatchoices g)) \<longrightarrow>
      (\<exists>f. create now owner vals prev s = (Inl (InvalidFieldValue (attname f) (getattr vals f)), s)
           \<and> getattr vals f \<notin> set (map fst (flatchoices f))))
   \<and> (validate vals = None \<longrightarrow>
        create now owner (vals\<lparr>gender := ''xx''\<rparr>) prev s = (Inl (InvalidFieldValue ''gender'' ''xx''), s))
   \<and> (fst (create now owner vals prev s) = Inr i \<longrightarrow>
        (\<forall>f. getattr vals f \<in> set (map fst (flatchoices f))))"
proof -
  have general: "\<exists>f. create now owner vals prev s = (Inl (InvalidFieldValue (attname f) (getattr vals f)), s)
           \<and> getattr vals f \<notin> set (map fst (flatchoices f))"
    if "getattr vals g \<notin> set (map fst (flatchoices g))" for g
  proof -
    from that have "validate vals \<noteq> None"
      by (auto simp: validate_None_iff)
    then obtain e where e: "validate vals = Some e"
      by auto
    from validate_SomeD [OF e] create_failure [OF e] show ?thesis
      by auto
  qed
  have gender: "\<exists>f. create now owner vals prev s = (Inl (InvalidFieldValue (attname f) (getattr vals f)), s)
           \<and> getattr vals f \<notin> set (map fst (flatchoices f))"
    if "gender vals \<notin> set (map fst GENDER_CHOICES)"
    using general [of F_gender] that by simp
  have xx: "create now owner (vals\<lparr>gender := ''xx''\<rparr>) prev s = (Inl (InvalidFieldValue ''gender'' ''xx''), s)"
    if ok: "validate vals = None"
  proof -
    have ok': "getattr vals f \<in> set (map fst (flatchoices f))" for f
      using ok by (simp add: validate_None_iff)
    have "filter (\<lambda>f. getattr (vals\<lparr>gender := ''xx''\<rparr>) f \<notin> set (map fst (flatchoices f))) coded_fields
        = [F_gender]"
      using ok' [of F_number_of_children] ok' [of F_number_of_guardians] ok' [of F_race_identification]
        ok' [of F_age] ok' [of F_education_level] ok' [of F_spouse_education_level]
        ok' [of F_annual_income] ok' [of F_density]
      by (simp add: coded_fields_def GENDER_CHOICES_def)
    then have "validate (vals\<lparr>gender := ''xx''\<rparr>) = Some (InvalidFieldValue ''gender'' ''xx'')"
      by (simp add: validate_def)
    then show ?thesis
      by (rule create_failure)
  qed
  have persisted: "\<forall>f. getattr vals f \<in> set (map fst (flatchoices f))"
    if "fst (create now owner vals prev s) = Inr i"
  proof (cases "validate vals")
    case None
    then show ?thesis by (simp add: validate_None_iff)
  next
    case (Some e)
    with that show ?thesis by (simp add: create_def)
  qed
  from general gender xx persisted show ?thesis
    by blast
qed

theorem create_validates_coded_fields_witness:
  "create (clock 1) alice (sample_fields\<lparr>gender := ''xx''\<rparr>) None empty_store
     = (Inl (InvalidFieldValue ''gender'' ''xx''), empty_store)
   \<and> fst (create (clock 1) alice sample_fields None empty_store) = Inr 1
   \<and> gender sample_fields \<in> set (map fst GENDER_CHOICES)"
proof -
  have g: "gender sample_fields \<in> set (map fst GENDER_CHOICES)"
    by (simp add: sample_fields_def GENDER_CHOICES_def)
  have ok: "fst (create (clock 1) alice sample_fields None (empty_store :: unit Store)) = Inr 1"
    by (simp add: create_success [OF sample_fields_valid] empty_store_def)
  from create_validates_coded_fields [where vals = sample_fields and g = F_gender and now = "clock 1"
      and owner = alice and prev = None and s = empty_store and i = 1]
    sample_fields_valid ok g
  show ?thesis
    by simp
qed

section \<open>The record store: rows and timestamps\<close>

lemma new_row_simps [simp]:
  "pk (Fields.extend vals (DemographicData.fields p u t pr)) = p"
  "user (Fields.extend vals (DemographicData.fields p u t pr)) = u"
  "created_at (Fields.extend vals (DemographicData.fields p u t pr)) = t"
  "previous (Fields.extend vals (DemographicData.fields p u t pr)) = pr"
  "Fields.truncate (Fields.extend vals (DemographicData.fields p u t pr)) = vals"
  by (simp_all add: Fields.extend_def DemographicData.fields_def Fields.truncate_def)

lemma get_Inr_iff: "get s i = Inr r \<longleftrightarrow> find (\<lambda>r. pk r = i) (rows s) = Some r"
  by (simp add: get_def split: option.splits)

lemma get_InrD: "get s i = Inr r \<Longrightarrow> r \<in> set (rows s) \<and> pk r = i"
  by (auto simp: get_Inr_iff find_Some_iff)

lemma get_Inl_iff: "get s i = Inl e \<longleftrightarrow> e = NotFound i \<and> i \<notin> pk ` set (rows s)"
proof (cases "find (\<lambda>r. pk r = i) (rows s)")
  case None
  have a: "i \<notin> pk ` set (rows s)"
    using None by (auto simp: find_None_iff)
  have b: "get s i = Inl (NotFound i)"
    using None by (simp add: get_def)
  from a b show ?thesis
    by auto
next
  case (Some r)
  then have "r \<in> set (rows s)" "pk r = i"
    by (auto simp: find_Some_iff)
  with Some show ?thesis
    by (auto simp: get_def)
qed

lemma wf_store_pk: "wf_store s \<Longrightarrow> r \<in> set (rows s) \<Longrightarrow> pk r < next_pk s"
  by (simp add: wf_store_def list_all_iff)

lemma create_cases:
  obtains (rejected) e where "validate vals = Some e" "create now owner vals prev s = (Inl e, s)"
  | (persisted) "validate vals = None"
      "create now owner vals prev s =
         (Inr (next_pk s),
          s\<lparr>rows := Fields.extend vals (DemographicData.fields (next_pk s) owner now prev) # rows s,
            next_pk := Suc (next_pk s)\<rparr>)"
  by (cases "validate vals") (simp_all add: create_def)

lemma create_wf: "wf_store s \<Longrightarrow> wf_store (snd (create now owner vals prev s))"
  by (cases rule: create_cases [of vals now owner prev s])
    (auto simp: wf_store_def list_all_iff less_Suc_eq)

lemma create_keeps:
  assumes "wf_store s" "get s j = Inr r"
  shows "get (snd (create now owner vals prev s)) j = Inr r"
proof (cases rule: create_cases [of vals now owner prev s])
  case (rejected e)
  with assms show ?thesis by simp
next
  case persisted
  from assms have "j < next_pk s"
    using get_InrD [of s j r] wf_store_pk [of s r] by auto
  with assms persisted show ?thesis
    by (simp add: get_Inr_iff)
qed

lemma create_all_wf: "wf_store s \<Longrightarrow> wf_store (create_all calls s)"
  by (induction calls s rule: create_all.induct) (simp_all add: create_wf)

lemma create_all_keeps:
  "wf_store s \<Longrightarrow> get s j = Inr r \<Longrightarrow> get (create_all calls s) j = Inr r"
  by (induction calls s rule: create_all.induct) (simp_all add: create_wf create_keeps)

lemma create_fresh:
  assumes "wf_store s" "create now owner vals prev s = (Inr i, s')"
  shows "get s i = Inl (NotFound i)" "\<exists>r. get s' i = Inr r \<and> created_at r = now"
proof -
  from assms(2) have i: "i = next_pk s" and s': "s' = s\<lparr>rows := Fields.extend vals
      (DemographicData.fields (next_pk s) owner now prev) # rows s, next_pk := Suc (next_pk s)\<rparr>"
    by (cases rule: create_cases [of vals now owner prev s]; simp)+
  from assms(1) i show "get s i = Inl (NotFound i)"
    using wf_store_pk [of s] by (fastforce simp: get_Inl_iff)
  from i s' show "\<exists>r. get s' i = Inr r \<and> created_at r = now"
    by (simp add: get_Inr_iff)
qed

lemma create_ordered:
  assumes "wf_store s"
    and "sorted_wrt (\<lambda>a b. pk b < pk a \<and> R (dt_key (created_at b)) (dt_key (created_at a))) (rows s)"
    and "\<forall>r\<in>set (rows s). R (dt_key (created_at r)) (dt_key now)"
  shows "sorted_wrt (\<lambda>a b. pk b < pk a \<and> R (dt_key (created_at b)) (dt_key (created_at a)))
           (rows (snd (create now owner vals prev s)))"
proof (cases rule: create_cases [of vals now owner prev s])
  case (rejected e)
  with assms show ?thesis by simp
next
  case persisted
  with assms show ?thesis
    using wf_store_pk [of s] by simp
qed

lemma create_bounded:
  assumes "\<forall>r\<in>set (rows s). R (dt_key (created_at r)) (dt_key t)" "R (dt_key now) (dt_key t)"
  shows "\<forall>r\<in>set (rows (snd (create now owner vals prev s))). R (dt_key (created_at r)) (dt_key t)"
  using assms by (cases rule: create_cases [of vals now owner prev s]) auto

lemma create_all_ordered:
  assumes "sorted_wrt (\<lambda>a b. R (dt_key a) (dt_key b)) (map fst calls)"
    and "wf_store s"
    and "sorted_wrt (\<lambda>a b. pk b < pk a \<and> R (dt_key (created_at b)) (dt_key (created_at a))) (rows s)"
    and "\<forall>r\<in>set (rows s). \<forall>c\<in>set calls. R (dt_key (created_at r)) (dt_key (fst c))"
  shows "sorted_wrt (\<lambda>a b. pk b < pk a \<and> R (dt_key (created_at b)) (dt_key (created_at a)))
           (rows (create_all calls s))"
  using assms
proof (induction calls s rule: create_all.induct)
  case (1 s)
  then show ?case by simp
next
  case (2 now owner vals prev calls s)
  let ?s = "snd (create now owner vals prev s)"
  have "sorted_wrt (\<lambda>a b. R (dt_key a) (dt_key b)) (map fst calls)"
    using "2.prems"(1) by simp
  moreover have "wf_store ?s"
    using "2.prems"(2) by (rule create_wf)
  moreover have "sorted_wrt (\<lambda>a b. pk b < pk a \<and> R (dt_key (created_at b)) (dt_key (created_at a))) (rows ?s)"
    using "2.prems"(2,3,4) by (intro create_ordered) auto
  moreover have "\<forall>r\<in>set (rows ?s). \<forall>c\<in>set calls. R (dt_key (created_at r)) (dt_key (fst c))"
  proof (intro ballI)
    fix r c assume r: "r \<in> set (rows ?s)" and c: "c \<in> set calls"
    have "\<forall>r\<in>set (rows s). R (dt_key (created_at r)) (dt_key (fst c))"
      using "2.prems"(4) c by auto
    moreover have "R (dt_key now) (dt_key (fst c))"
      using "2.prems"(1) c by auto
    ultimately have "\<forall>r\<in>set (rows ?s). R (dt_key (created_at r)) (dt_key (fst c))"
      by (rule create_bounded)
    with r show "R (dt_key (created_at r)) (dt_key (fst c))" by blast
  qed
  ultimately show ?case
    using "2.IH" by simp
qed

lemma empty_store_wf: "wf_store empty_store"
  by (simp add: wf_store_def empty_store_def)

text \<open>
  Claim C8: \<open>create\<close> gives the new Record an identity no Record had and the current
  time as \<open>created_at\<close>; every Record that was in the store is returned unchanged by
  \<open>get\<close> after one \<open>create\<close> and after any sequence of them; a failed \<open>create\<close>
  changes nothing; \<open>to_display\<close> leaves the row as it was; and when the clock
  readings of successive insertions do not decrease (or increase), \<open>created_at\<close> does
  not decrease (or increases) from each Record to every Record inserted later.
\<close>

theorem created_at_assigned_once:
  "(wf_store s \<and> create now owner vals prev s = (Inr i, s') \<longrightarrow>
      get s i = Inl (NotFound i) \<and> (\<exists>r. get s' i = Inr r \<and> created_at r = now) \<and> wf_store s')
   \<and> (wf_store s \<and> get s j = Inr r \<longrightarrow>
        get (snd (create now owner vals prev s)) j = Inr r \<and> get (create_all calls s) j = Inr r)
   \<and> (create now owner vals prev s = (Inl e, s') \<longrightarrow> s' = s)
   \<and> snd (to_display_call sc r) = r
   \<and> (sorted_wrt (\<lambda>a b. dt_key a \<le> dt_key b) (map fst calls) \<longrightarrow>
        sorted_wrt (\<lambda>a b. pk b < pk a \<and> dt_key (created_at b) \<le> dt_key (created_at a))
          (rows (create_all calls empty_store)))
   \<and> (sorted_wrt (\<lambda>a b. dt_key a < dt_key b) (map fst calls) \<longrightarrow>
        sorted_wrt (\<lambda>a b. pk b < pk a \<and> dt_key (created_at b) < dt_key (created_at a))
          (rows (create_all calls empty_store)))"
proof -
  have fresh: "get s i = Inl (NotFound i) \<and> (\<exists>r. get s' i = Inr r \<and> created_at r = now) \<and> wf_store s'"
    if "wf_store s" "create now owner vals prev s = (Inr i, s')"
    using create_fresh [OF that] create_wf [OF that(1), of now owner vals prev] that(2) by simp
  have keeps: "get (snd (create now owner vals prev s)) j = Inr r \<and> get (create_all calls s) j = Inr r"
    if "wf_store s" "get s j = Inr r"
    using create_keeps [OF that] create_all_keeps [OF that] by simp
  have failed: "s' = s" if "create now owner vals prev s = (Inl e, s')"
    using that by (cases rule: create_cases [of vals now owner prev s]) simp_all
  have projector: "snd (to_display_call sc r) = r"
    by (simp add: to_display_call_def)
  have mono: "sorted_wrt (\<lambda>a b. pk b < pk a \<and> R (dt_key (created_at b)) (dt_key (created_at a)))
          (rows (create_all calls (empty_store :: 'a Store)))"
    if "sorted_wrt (\<lambda>a b. R (dt_key a) (dt_key b)) (map fst calls)" for R
    using that empty_store_wf by (rule create_all_ordered) (simp_all add: empty_store_def)
  from fresh keeps failed projector mono [of "(\<le>)"] mono [of "(<)"] show ?thesis
    by blast
qed

lemma alice_neq_bob: "alice \<noteq> bob" "bob \<noteq> alice"
  by (simp_all add: alice_def bob_def)

lemma clock_less: "dt_key (clock m) < dt_key (clock n) \<longleftrightarrow> m < n"
  by (simp add: dt_key_def clock_def)

theorem created_at_assigned_once_witness:
  "wf_store (empty_store :: unit Store)
   \<and> create (clock 1) alice sample_fields None empty_store
       = (Inr 1, \<lparr>rows = [Fields.extend sample_fields (DemographicData.fields 1 alice (clock 1) None)],
                  next_pk = 2\<rparr>)
   \<and> get (empty_store :: unit Store) 1 = Inl (NotFound 1)
   \<and> sorted_wrt (\<lambda>a b. dt_key a < dt_key b) (map fst sample_creates)
   \<and> sorted_wrt (\<lambda>a b. pk b < pk a \<and> dt_key (created_at b) < dt_key (created_at a))
        (rows (create_all sample_creates empty_store))
   \<and> get (create_all sample_creates cyclic_store) 1
       = Inr (Fields.extend sample_fields (DemographicData.fields 1 alice (clock 1) (Some 2)))"
proof -
  let ?a1 = "Fields.extend sample_fields (DemographicData.fields 1 alice (clock 1) (Some 2))"
  let ?s1 = "\<lparr>rows = [Fields.extend sample_fields (DemographicData.fields 1 alice (clock 1) None)],
      next_pk = 2\<rparr> :: unit Store"
  have wf0: "wf_store (empty_store :: unit Store)"
    by (simp add: wf_store_def empty_store_def)
  have made: "create (clock 1) alice sample_fields None empty_store = (Inr 1, ?s1)"
    by (simp add: create_success [OF sample_fields_valid] empty_store_def)
  have clock: "sorted_wrt (\<lambda>a b. dt_key a < dt_key b) (map fst sample_creates)"
    by (simp add: sample_creates_def clock_less)
  have wfc: "wf_store cyclic_store"
    by (simp add: wf_store_def cyclic_store_def)
  have c_get1: "get cyclic_store 1 = Inr ?a1"
    by (simp add: get_def cyclic_store_def)
  note first = created_at_assigned_once [where s = empty_store and now = "clock 1" and owner = alice
      and vals = sample_fields and prev = None and i = 1 and s' = ?s1 and calls = sample_creates]
  note later = created_at_assigned_once [where s = cyclic_store and j = 1 and r = ?a1
      and calls = sample_creates]
  from first wf0 made clock
  have "get (empty_store :: unit Store) 1 = Inl (NotFound 1)"
    and "sorted_wrt (\<lambda>a b. pk b < pk a \<and> dt_key (created_at b) < dt_key (created_at a))
        (rows (create_all sample_creates (empty_store :: unit Store)))"
    by simp_all
  moreover from later wfc c_get1 have "get (create_all sample_creates cyclic_store) 1 = Inr ?a1"
    by simp
  ultimately show ?thesis
    using wf0 made clock by simp
qed

section \<open>The record store: history\<close>

lemma find_filter: "find P xs = (case filter P xs of [] \<Rightarrow> None | x # _ \<Rightarrow> Some x)"
  by (induction xs) simp_all

lemma fold_keeps_best:
  "\<forall>x\<in>set rs. \<not> dt_key (created_at r) < dt_key (created_at x) \<Longrightarrow>
   fold (\<lambda>x best. if dt_key (created_at best) < dt_key (created_at x) then x else best) rs r = r"
  by (induction rs) simp_all

lemma latest_for_newest_first:
  assumes "newest_first (\<le>) (rows s)"
  shows "latest_for s u = find (\<lambda>r. user r = u) (rows s)"
proof (cases "filter (\<lambda>r. user r = u) (rows s)")
  case Nil
  then show ?thesis
    by (simp add: latest_for_def find_filter)
next
  case (Cons r rs)
  have "newest_first (\<le>) (filter (\<lambda>r. user r = u) (rows s))"
    using assms by (rule sorted_wrt_filter)
  with Cons have "\<forall>x\<in>set rs. dt_key (created_at x) \<le> dt_key (created_at r)"
    by simp
  then have "\<forall>x\<in>set rs. \<not> dt_key (created_at r) < dt_key (created_at x)"
    by (simp add: not_less)
  then have "fold (\<lambda>x best. if dt_key (created_at best) < dt_key (created_at x) then x else best) rs r = r"
    by (rule fold_keeps_best)
  with Cons show ?thesis
    by (simp add: latest_for_def find_filter)
qed

lemma chained_suffix: "chained (xs @ ys) \<Longrightarrow> chained ys"
  by (induction xs) simp_all

lemma find_Some_split:
  "find P xs = Some y \<Longrightarrow> \<exists>mid rest. xs = mid @ y # rest \<and> P y \<and> (\<forall>x\<in>set mid. \<not> P x)"
proof (induction xs)
  case Nil
  then show ?case by simp
next
  case (Cons a xs)
  show ?case
  proof (cases "P a")
    case True
    with Cons.prems have "a = y" by simp
    with True have "a # xs = [] @ y # xs \<and> P y \<and> (\<forall>x\<in>set []. \<not> P x)" by simp
    then show ?thesis by blast
  next
    case False
    with Cons.prems have "find P xs = Some y" by simp
    then obtain mid rest where "xs = mid @ y # rest" "P y" "\<forall>x\<in>set mid. \<not> P x"
      using Cons.IH by blast
    with False have "a # xs = (a # mid) @ y # rest \<and> P y \<and> (\<forall>x\<in>set (a # mid). \<not> P x)"
      by simp
    then show ?thesis by blast
  qed
qed

lemma find_split_Some:
  "xs = mid @ y # rest \<Longrightarrow> P y \<Longrightarrow> \<forall>x\<in>set mid. \<not> P x \<Longrightarrow> find P xs = Some y"
  by (induction mid arbitrary: xs) auto

lemma get_distinct:
  assumes "distinct (map pk (rows s))" "r \<in> set (rows s)"
  shows "get s (pk r) = Inr r"
proof -
  from assms(2) obtain xs ys where split: "rows s = xs @ r # ys"
    by (auto simp: in_set_conv_decomp)
  with assms(1) have "pk r \<notin> pk ` set xs"
    by auto
  then have "\<forall>x\<in>set xs. \<not> pk x = pk r"
    by (metis imageI)
  with split have "find (\<lambda>x. pk x = pk r) (rows s) = Some r"
    by (intro find_split_Some [where mid = xs and rest = ys]) simp_all
  then show ?thesis
    by (simp add: get_Inr_iff)
qed

lemma walk_chained:
  assumes "distinct (map pk (rows s))"
  shows "rows s = pre @ r # rest \<Longrightarrow> user r = u \<Longrightarrow> chained (r # rest) \<Longrightarrow>
         set visited \<inter> pk ` set (r # rest) = {} \<Longrightarrow>
         walk s u visited (Some (pk r)) = Inr (filter (\<lambda>x. user x = u) (r # rest))"
proof (induction "length rest" arbitrary: pre r rest visited rule: less_induct)
  case less
  have r_in: "r \<in> set (rows s)"
    using less.prems(1) by simp
  have got: "get s (pk r) = Inr r"
    using assms r_in by (rule get_distinct)
  have fresh: "pk r \<notin> set visited"
    using less.prems(4) by auto
  show ?case
  proof (cases "find (\<lambda>x. user x = u) rest")
    case None
    then have none: "filter (\<lambda>x. user x = u) rest = []"
      by (simp add: find_None_iff filter_empty_conv)
    from None less.prems(2,3) have "previous r = None"
      by simp
    with got fresh less.prems(2) none show ?thesis
      by simp
  next
    case (Some r')
    then obtain mid rest' where rest: "rest = mid @ r' # rest'" and r': "user r' = u"
      and mid: "\<forall>x\<in>set mid. user x \<noteq> u"
      using find_Some_split [of "\<lambda>x. user x = u" rest r'] by blast
    from Some less.prems(2,3) have prev: "previous r = Some (pk r')"
      by simp
    have "walk s u (pk r # visited) (Some (pk r')) = Inr (filter (\<lambda>x. user x = u) (r' # rest'))"
    proof (rule less.hyps)
      show "length rest' < length rest"
        using rest by simp
      show "rows s = (pre @ r # mid) @ r' # rest'"
        using less.prems(1) rest by simp
      show "user r' = u"
        by (rule r')
      show "chained (r' # rest')"
        using less.prems(3) rest chained_suffix [of "r # mid" "r' # rest'"] by simp
      have "pk r \<notin> pk ` set (r' # rest')"
        using assms less.prems(1) rest by auto
      then show "set (pk r # visited) \<inter> pk ` set (r' # rest') = {}"
        using less.prems(4) rest by auto
    qed
    moreover have "filter (\<lambda>x. user x = u) (r # rest) = r # filter (\<lambda>x. user x = u) (r' # rest')"
      using less.prems(2) rest mid r' by simp
    ultimately show ?thesis
      using got fresh less.prems(2) prev by simp
  qed
qed

lemma newest_first_distinct: "newest_first R rs \<Longrightarrow> distinct (map pk rs)"
  by (induction rs) auto

lemma newest_first_weaken:
  "newest_first R rs \<Longrightarrow> (\<And>a b. R a b \<Longrightarrow> a \<le> b) \<Longrightarrow> newest_first (\<le>) rs"
  by (erule sorted_wrt_mono_rel [rotated]) simp

lemma submit_chained:
  assumes "newest_first (\<le>) (rows s)" "chained (rows s)"
  shows "chained (rows (snd (submit now owner vals s)))"
  unfolding submit_def
  by (cases rule: create_cases [of vals now owner "map_option pk (latest_for s owner)" s])
    (simp_all add: assms latest_for_newest_first [OF assms(1)])

lemma submit_all_invariant:
  assumes "sorted_wrt (\<lambda>a b. R (dt_key a) (dt_key b)) (map fst calls)"
    and "wf_store s" "newest_first R (rows s)" "chained (rows s)"
    and "\<forall>r\<in>set (rows s). \<forall>c\<in>set calls. R (dt_key (created_at r)) (dt_key (fst c))"
    and weaker: "\<And>a b. R a b \<Longrightarrow> a \<le> b"
  shows "newest_first R (rows (submit_all calls s)) \<and> chained (rows (submit_all calls s))"
  using assms(1-5)
proof (induction calls s rule: submit_all.induct)
  case (1 s)
  then show ?case by simp
next
  case (2 now owner vals calls s)
  let ?s = "snd (submit now owner vals s)"
  have "sorted_wrt (\<lambda>a b. R (dt_key a) (dt_key b)) (map fst calls)"
    using "2.prems"(1) by simp
  moreover have "wf_store ?s"
    unfolding submit_def using "2.prems"(2) by (rule create_wf)
  moreover have "newest_first R (rows ?s)"
    unfolding submit_def using "2.prems"(2,3,5) by (intro create_ordered) auto
  moreover have "chained (rows ?s)"
    using newest_first_weaken [OF "2.prems"(3) weaker] "2.prems"(4) by (rule submit_chained)
  moreover have "\<forall>r\<in>set (rows ?s). \<forall>c\<in>set calls. R (dt_key (created_at r)) (dt_key (fst c))"
  proof (intro ballI)
    fix r c assume r: "r \<in> set (rows ?s)" and c: "c \<in> set calls"
    have "\<forall>r\<in>set (rows s). R (dt_key (created_at r)) (dt_key (fst c))"
      using "2.prems"(5) c by auto
    moreover have "R (dt_key now) (dt_key (fst c))"
      using "2.prems"(1) c by auto
    ultimately have "\<forall>r\<in>set (rows ?s). R (dt_key (created_at r)) (dt_key (fst c))"
      unfolding submit_def by (rule create_bounded)
    with r show "R (dt_key (created_at r)) (dt_key (fst c))" by blast
  qed
  ultimately show ?case
    using "2.IH" by simp
qed

lemma submit_all_rows:
  "map submitted (rows (submit_all calls s)) =
     rev (filter (\<lambda>(now, owner, vals). validate vals = None) calls) @ map submitted (rows s)"
proof (induction calls s rule: submit_all.induct)
  case (1 s)
  then show ?case by simp
next
  case (2 now owner vals calls s)
  let ?s = "snd (submit now owner vals s)"
  have step: "map submitted (rows ?s)
      = (if validate vals = None then [(now, owner, vals)] else []) @ map submitted (rows s)"
    unfolding submit_def
    by (cases rule: create_cases [of vals now owner "map_option pk (latest_for s owner)" s])
      (simp_all add: submitted_def)
  have "map submitted (rows (submit_all ((now, owner, vals) # calls) s))
      = rev (filter (\<lambda>(now, owner, vals). validate vals = None) calls) @ map submitted (rows ?s)"
    using "2.IH" by simp
  with step show ?case
    by simp
qed

lemma history_for_chained:
  assumes "newest_first (\<le>) (rows s)" "chained (rows s)"
  shows "history_for s u = Inr (filter (\<lambda>r. user r = u) (rows s))"
proof (cases "find (\<lambda>r. user r = u) (rows s)")
  case None
  then have "filter (\<lambda>r. user r = u) (rows s) = []"
    by (simp add: find_None_iff filter_empty_conv)
  with None show ?thesis
    by (simp add: history_for_def latest_for_newest_first [OF assms(1)])
next
  case (Some r)
  then obtain pre rest where split: "rows s = pre @ r # rest" and r: "user r = u"
    and pre: "\<forall>x\<in>set pre. user x \<noteq> u"
    using find_Some_split [of "\<lambda>r. user r = u" "rows s" r] by blast
  have "distinct (map pk (rows s))"
    using assms(1) by (rule newest_first_distinct)
  moreover note split r
  moreover have "chained (r # rest)"
    using assms(2) split chained_suffix [of pre "r # rest"] by simp
  moreover have "set [] \<inter> pk ` set (r # rest) = {}"
    by simp
  ultimately have "walk s u [] (Some (pk r)) = Inr (filter (\<lambda>x. user x = u) (r # rest))"
    by (rule walk_chained)
  moreover have "filter (\<lambda>x. user x = u) (rows s) = filter (\<lambda>x. user x = u) (r # rest)"
    using split pre by simp
  ultimately show ?thesis
    using Some by (simp add: history_for_def latest_for_newest_first [OF assms(1)] del: walk.simps)
qed

lemma chained_oldest:
  "chained rs \<Longrightarrow> filter (\<lambda>x. user x = u) rs \<noteq> [] \<Longrightarrow>
   previous (last (filter (\<lambda>x. user x = u) rs)) = None"
proof (induction rs)
  case Nil
  then show ?case by simp
next
  case (Cons r rs)
  show ?case
  proof (cases "filter (\<lambda>x. user x = u) rs = []")
    case True
    with Cons.prems have own: "user r = u"
      by (auto split: if_splits)
    from True have "find (\<lambda>x. user x = u) rs = None"
      by (simp add: find_None_iff filter_empty_conv)
    with Cons.prems(1) own True show ?thesis
      by simp
  next
    case False
    with Cons show ?thesis by simp
  qed
qed

subsection \<open>Failing traversals\<close>

lemma walk_foreign:
  "follows s i j \<Longrightarrow> get s j = Inr r \<Longrightarrow> user r \<noteq> u \<Longrightarrow>
   walk s u visited (Some i) = Inl BrokenChain"
proof (induction arbitrary: visited rule: follows.induct)
  case (here i)
  then show ?case by simp
next
  case (step i ri i' k)
  have "walk s u (i # visited) (Some i') = Inl BrokenChain"
    using step.prems by (rule step.IH)
  with step.hyps(1,2) show ?case
    by (simp add: walk.simps(2) [of s u visited i] del: walk.simps)
qed

lemma endless_step:
  assumes "endless s i" "get s i = Inr r" "previous r = Some k"
  shows "endless s k"
  unfolding endless_def
proof (intro allI impI)
  fix x assume "follows s k x"
  with assms(2,3) have "follows s i x"
    by (rule follows.step)
  with assms(1) show "\<exists>r k. get s x = Inr r \<and> previous r = Some k"
    by (simp add: endless_def)
qed

lemma walk_endless:
  "endless s i \<Longrightarrow> walk s u visited (Some i) = Inl BrokenChain"
proof (induction "card (pk ` set (rows s) - set visited)" arbitrary: i visited rule: less_induct)
  case less
  from less.prems obtain r k where got: "get s i = Inr r" and prev: "previous r = Some k"
    using follows.here [of s i] by (auto simp: endless_def)
  show ?case
  proof (cases "i \<in> set visited \<or> user r \<noteq> u")
    case True
    with got show ?thesis by auto
  next
    case False
    from got have "i \<in> pk ` set (rows s)"
      using get_InrD [of s i r] by auto
    with False have "i \<in> pk ` set (rows s) - set visited"
      by simp
    then have "card ((pk ` set (rows s) - set visited) - {i}) < card (pk ` set (rows s) - set visited)"
      by (intro card_Diff1_less) simp_all
    moreover have "pk ` set (rows s) - set (i # visited) = (pk ` set (rows s) - set visited) - {i}"
      by auto
    ultimately have smaller: "card (pk ` set (rows s) - set (i # visited)) < card (pk ` set (rows s) - set visited)"
      by simp
    have "endless s k"
      using less.prems got prev by (rule endless_step)
    with smaller have "walk s u (i # visited) (Some k) = Inl BrokenChain"
      by (rule less.hyps)
    with False got prev show ?thesis
      by (simp add: walk.simps(2) [of s u visited i] del: walk.simps)
  qed
qed

lemma follows_back:
  assumes cyc: "get s j = Inr r" "previous r = Some k" "follows s k j"
  shows "follows s i x \<Longrightarrow> follows s i j \<Longrightarrow> follows s x j"
proof (induction rule: follows.induct)
  case (here i)
  then show ?case by simp
next
  case (step i ri i' x)
  from step.prems have "follows s i' j"
  proof (cases rule: follows.cases)
    case here
    with step.hyps cyc show ?thesis by simp
  next
    case (step r2 j2)
    with step.hyps show ?thesis by simp
  qed
  then show ?case
    by (rule step.IH)
qed

lemma cycle_endless:
  assumes cyc: "get s j = Inr r" "previous r = Some k" "follows s k j"
  shows "endless s j"
  unfolding endless_def
proof (intro allI impI)
  fix x assume "follows s j x"
  then have "follows s x j"
    using follows.here [of s j] by (rule follows_back [OF cyc])
  then show "\<exists>r k. get s x = Inr r \<and> previous r = Some k"
    using cyc by (cases rule: follows.cases) auto
qed

lemma endless_before:
  "follows s i j \<Longrightarrow> endless s j \<Longrightarrow> endless s i"
proof (induction rule: follows.induct)
  case (here i)
  then show ?case by simp
next
  case (step i ri i' j)
  then have tail: "endless s i'" by simp
  show ?case
    unfolding endless_def
  proof (intro allI impI)
    fix x assume "follows s i x"
    then show "\<exists>r k. get s x = Inr r \<and> previous r = Some k"
    proof (cases rule: follows.cases)
      case here
      with step.hyps show ?thesis by auto
    next
      case (step r2 j2)
      with \<open>get s i = Inr ri\<close> \<open>previous ri = Some i'\<close> have "follows s i' x" by simp
      with tail show ?thesis by (simp add: endless_def)
    qed
  qed
qed

lemma history_for_foreign:
  assumes "latest_for s u = Some r0" "follows s (pk r0) j" "get s j = Inr r" "user r \<noteq> u"
  shows "history_for s u = Inl BrokenChain"
  using assms by (simp add: history_for_def walk_foreign del: walk.simps)

lemma history_for_cycle:
  assumes "latest_for s u = Some r0" "follows s (pk r0) j"
    and "get s j = Inr r" "previous r = Some k" "follows s k j"
  shows "history_for s u = Inl BrokenChain"
proof -
  have "endless s j"
    using assms(3,4,5) by (rule cycle_endless)
  with assms(2) have "endless s (pk r0)"
    by (rule endless_before)
  then show ?thesis
    using assms(1) by (simp add: history_for_def walk_endless del: walk.simps)
qed

subsection \<open>Successful traversals\<close>

lemma walk_sound:
  "walk s u visited cur = Inr rs \<Longrightarrow>
   list_all (\<lambda>r. user r = u) rs \<and> set rs \<subseteq> set (rows s) \<and> distinct (map pk rs)
   \<and> pk ` set rs \<inter> set visited = {}"
proof (induction s u visited cur arbitrary: rs rule: walk.induct)
  case (1 s owner visited)
  then show ?case by simp
next
  case (2 s owner visited i)
  from "2.prems" have fresh: "i \<notin> set visited"
    by (auto split: if_splits)
  with "2.prems" obtain r where got: "get s i = Inr r"
    by (cases "get s i") auto
  with "2.prems" fresh have own: "user r = owner"
    by (auto split: if_splits)
  with "2.prems" fresh got obtain rs' where tail: "walk s owner (i # visited) (previous r) = Inr rs'"
    and rs: "rs = r # rs'"
    by (cases "walk s owner (i # visited) (previous r)") auto
  from "2.IH" [OF fresh got _ tail] own
  have ih: "list_all (\<lambda>r. user r = owner) rs'" "set rs' \<subseteq> set (rows s)" "distinct (map pk rs')"
    "pk ` set rs' \<inter> set (i # visited) = {}"
    by simp_all
  from got have r: "r \<in> set (rows s)" "pk r = i"
    using get_InrD [of s i r] by simp_all
  from ih r own fresh rs show ?case
    by auto
qed

text \<open>
  Claim C4: after a sequence of submissions, each supplying the owner's latest Record
  as \<open>previous\<close>, at clock readings that never decrease, \<open>history_for\<close> returns for
  every owner exactly the Records of that owner's accepted submissions, most recent
  first, the oldest with \<open>previous\<close> unset; when every clock reading is later than
  the one before, the history is strictly descending by \<open>created_at\<close>. On any store,
  \<open>history_for\<close> fails with \<open>BrokenChain\<close> when the references from the owner's
  latest Record lead to a Record of another owner or into a cycle, and a history it
  returns holds Records of the store, all of the owner, no Record twice.
\<close>

theorem history_for_follows_chain:
  "(sorted_wrt (\<lambda>a b. dt_key a \<le> dt_key b) (map fst calls) \<and> s = submit_all calls empty_store \<longrightarrow>
      (\<exists>rs. history_for s u = Inr rs
         \<and> rs = filter (\<lambda>r. user r = u) (rows s)
         \<and> map submitted rs = rev (filter (\<lambda>(now, owner, vals). owner = u \<and> validate vals = None) calls)
         \<and> sorted_wrt (\<lambda>a b. pk b < pk a \<and> dt_key (created_at b) \<le> dt_key (created_at a)) rs
         \<and> (rs \<noteq> [] \<longrightarrow> previous (last rs) = None)))
   \<and> (sorted_wrt (\<lambda>a b. dt_key a < dt_key b) (map fst calls) \<and> s = submit_all calls empty_store \<longrightarrow>
        sorted_wrt (\<lambda>a b. dt_key (created_at b) < dt_key (created_at a))
          (filter (\<lambda>r. user r = u) (rows s)))
   \<and> (latest_for t u = Some r0 \<and> follows t (pk r0) j \<and> get t j = Inr r \<and> user r \<noteq> u \<longrightarrow>
        history_for t u = Inl BrokenChain)
   \<and> (latest_for t u = Some r0 \<and> follows t (pk r0) j \<and> get t j = Inr r \<and> previous r = Some k
        \<and> follows t k j \<longrightarrow> history_for t u = Inl BrokenChain)
   \<and> (history_for t u = Inr hs \<longrightarrow>
        list_all (\<lambda>r. user r = u) hs \<and> set hs \<subseteq> set (rows t) \<and> distinct (map pk hs))"
proof -
  have inv: "newest_first R (rows s) \<and> chained (rows s)"
    if "sorted_wrt (\<lambda>a b. R (dt_key a) (dt_key b)) (map fst calls)"
      and "s = submit_all calls empty_store" and "\<And>a b. R a b \<Longrightarrow> a \<le> b" for R
    unfolding that(2) using that(1) empty_store_wf
    by (rule submit_all_invariant) (simp_all add: empty_store_def that(3))
  have chain: "\<exists>rs. history_for s u = Inr rs
         \<and> rs = filter (\<lambda>r. user r = u) (rows s)
         \<and> map submitted rs = rev (filter (\<lambda>(now, owner, vals). owner = u \<and> validate vals = None) calls)
         \<and> sorted_wrt (\<lambda>a b. pk b < pk a \<and> dt_key (created_at b) \<le> dt_key (created_at a)) rs
         \<and> (rs \<noteq> [] \<longrightarrow> previous (last rs) = None)"
    if clock: "sorted_wrt (\<lambda>a b. dt_key a \<le> dt_key b) (map fst calls)"
      and s: "s = submit_all calls empty_store"
  proof -
    have nf: "newest_first (\<le>) (rows s)" and ch: "chained (rows s)"
      using inv [of "(\<le>)", OF clock s] by simp_all
    let ?rs = "filter (\<lambda>r. user r = u) (rows s)"
    have "history_for s u = Inr ?rs"
      using nf ch by (rule history_for_chained)
    moreover have "map submitted ?rs
        = rev (filter (\<lambda>(now, owner, vals). owner = u \<and> validate vals = None) calls)"
    proof -
      have "map submitted ?rs = filter (\<lambda>(now, owner, vals). owner = u) (map submitted (rows s))"
        by (simp add: filter_map comp_def submitted_def)
      also have "map submitted (rows s) = rev (filter (\<lambda>(now, owner, vals). validate vals = None) calls)"
        unfolding s by (simp add: submit_all_rows empty_store_def)
      also have "filter (\<lambda>(now, owner, vals). owner = u) \<dots>
          = rev (filter (\<lambda>(now, owner, vals). owner = u \<and> validate vals = None) calls)"
        by (simp add: rev_filter [symmetric] case_prod_unfold conj_commute)
      finally show ?thesis .
    qed
    moreover have "newest_first (\<le>) ?rs"
      using nf by (rule sorted_wrt_filter)
    moreover have "?rs \<noteq> [] \<longrightarrow> previous (last ?rs) = None"
      using ch chained_oldest [of "rows s" u] by simp
    ultimately show ?thesis
      by blast
  qed
  have strict: "sorted_wrt (\<lambda>a b. dt_key (created_at b) < dt_key (created_at a))
          (filter (\<lambda>r. user r = u) (rows s))"
    if clock: "sorted_wrt (\<lambda>a b. dt_key a < dt_key b) (map fst calls)"
      and s: "s = submit_all calls empty_store"
  proof -
    have "newest_first (<) (rows s)"
      using inv [of "(<)", OF clock s] by simp
    then have "newest_first (<) (filter (\<lambda>r. user r = u) (rows s))"
      by (rule sorted_wrt_filter)
    then show ?thesis
      by (rule sorted_wrt_mono_rel [rotated]) simp
  qed
  have foreign: "history_for t u = Inl BrokenChain"
    if "latest_for t u = Some r0" "follows t (pk r0) j" "get t j = Inr r" "user r \<noteq> u"
    using that by (rule history_for_foreign)
  have cycle: "history_for t u = Inl BrokenChain"
    if "latest_for t u = Some r0" "follows t (pk r0) j" "get t j = Inr r" "previous r = Some k"
      "follows t k j"
    using that by (rule history_for_cycle)
  have sound: "list_all (\<lambda>r. user r = u) hs \<and> set hs \<subseteq> set (rows t) \<and> distinct (map pk hs)"
    if "history_for t u = Inr hs"
    using that walk_sound [of t u "[]" "map_option pk (latest_for t u)" hs]
    by (simp add: history_for_def)
  from chain strict foreign cycle sound show ?thesis
    by blast
qed

theorem history_for_follows_chain_witness:
  "sorted_wrt (\<lambda>a b. dt_key a < dt_key b) (map fst sample_submissions)
   \<and> (\<exists>rs. history_for (submit_all sample_submissions empty_store) alice = Inr rs
        \<and> map submitted rs = [(clock 3, alice, sample_fields), (clock 1, alice, sample_fields)]
        \<and> sorted_wrt (\<lambda>a b. dt_key (created_at b) < dt_key (created_at a)) rs
        \<and> previous (last rs) = None)
   \<and> history_for foreign_store alice = Inl BrokenChain
   \<and> history_for cyclic_store alice = Inl BrokenChain"
proof -
  let ?a2 = "Fields.extend sample_fields (DemographicData.fields 2 alice (clock 2) (Some 1))"
  let ?b1 = "Fields.extend sample_fields (DemographicData.fields 1 bob (clock 1) None)"
  let ?a1 = "Fields.extend sample_fields (DemographicData.fields 1 alice (clock 1) (Some 2))"
  have clock: "sorted_wrt (\<lambda>a b. dt_key a < dt_key b) (map fst sample_submissions)"
    by (simp add: sample_submissions_def clock_less)
  then have clock_le: "sorted_wrt (\<lambda>a b. dt_key a \<le> dt_key b) (map fst sample_submissions)"
    by (rule sorted_wrt_mono_rel [rotated]) simp
  have accepted: "rev (filter (\<lambda>(now, owner, vals). owner = alice \<and> validate vals = None) sample_submissions)
      = [(clock 3, alice, sample_fields), (clock 1, alice, sample_fields)]"
    by (simp add: sample_submissions_def sample_fields_valid alice_neq_bob)
  have f_latest: "latest_for foreign_store alice = Some ?a2"
    by (simp add: latest_for_def foreign_store_def alice_neq_bob)
  have f_get2: "get foreign_store 2 = Inr ?a2"
    by (simp add: get_def foreign_store_def)
  have f_get1: "get foreign_store 1 = Inr ?b1"
    by (simp add: get_def foreign_store_def)
  have f_follows: "follows foreign_store (pk ?a2) 1"
    using follows.step [OF f_get2 _ follows.here [of foreign_store 1]] by simp
  have c_latest: "latest_for cyclic_store alice = Some ?a2"
    by (simp add: latest_for_def cyclic_store_def clock_less)
  have c_get2: "get cyclic_store 2 = Inr ?a2"
    by (simp add: get_def cyclic_store_def)
  have c_get1: "get cyclic_store 1 = Inr ?a1"
    by (simp add: get_def cyclic_store_def)
  have c_follows: "follows cyclic_store (pk ?a2) 1"
    using follows.step [OF c_get2 _ follows.here [of cyclic_store 1]] by simp
  have c_back: "follows cyclic_store 2 1"
    using c_follows by simp
  note main = history_for_follows_chain [where calls = sample_submissions
      and s = "submit_all sample_submissions empty_store" and u = alice and t = foreign_store
      and ?r0.0 = ?a2 and j = 1 and r = ?b1]
  note cyc = history_for_follows_chain [where calls = sample_submissions
      and s = "submit_all sample_submissions empty_store" and u = alice and t = cyclic_store
      and ?r0.0 = ?a2 and j = 1 and r = ?a1 and k = 2]
  from main clock clock_le f_latest f_follows f_get1 alice_neq_bob
  have "\<exists>rs. history_for (submit_all sample_submissions empty_store) alice = Inr rs
        \<and> map submitted rs = rev (filter (\<lambda>(now, owner, vals). owner = alice \<and> validate vals = None) sample_submissions)
        \<and> sorted_wrt (\<lambda>a b. dt_key (created_at b) < dt_key (created_at a)) rs
        \<and> (rs \<noteq> [] \<longrightarrow> previous (last rs) = None)"
    and foreign: "history_for foreign_store alice = Inl BrokenChain"
    by auto
  then have chain: "\<exists>rs. history_for (submit_all sample_submissions empty_store) alice = Inr rs
        \<and> map submitted rs = [(clock 3, alice, sample_fields), (clock 1, alice, sample_fields)]
        \<and> sorted_wrt (\<lambda>a b. dt_key (created_at b) < dt_key (created_at a)) rs
        \<and> previous (last rs) = None"
    unfolding accepted by auto
  from cyc c_latest c_follows c_get1 c_back
  have cyclic: "history_for cyclic_store alice = Inl BrokenChain"
    by simp
  from clock chain foreign cyclic show ?thesis
    by blast
qed

end
